theory Spec2Isabelle
  imports Main
begin

section \<open>Values exchanged between the scheduler, its workers and its callers\<close>

text \<open>
  The message a worker posts back, which \<open>handleRequest\<close> destructures as
  \<open>{ isApiResource, httpCode, data }\<close>.
\<close>

record 'd response =
  isApiResource :: bool
  httpCode :: int
  data :: 'd

text \<open>
  The errors a race can reject with. \<open>ErrorRequestTimeout\<close> and \<open>ErrorWorkerExit\<close> are
  the two classes imported from \<open>./exceptions\<close>, each carrying its message; \<open>WorkerError\<close>
  is whatever the worker's \<open>error\<close> event delivers, which is an instance of neither class.
\<close>

datatype 'e error = ErrorRequestTimeout string | ErrorWorkerExit string | WorkerError 'e

text \<open>
  The two formatting methods of \<open>ErrorRequestTimeout\<close> live in \<open>./exceptions\<close>; the
  scheduler only calls them, so they are parameters here, each taking the error's message.
\<close>

record 'd exceptions =
  toHttpApiResponse :: "string \<Rightarrow> 'd response"
  toHttpResponse :: "string \<Rightarrow> 'd response"

text \<open>The request object as far as the scheduler reads it: the router's flag and the rest.\<close>

record 'q http_req =
  isApiRoute :: bool
  req_rest :: 'q

text \<open>
  \<open>path.join(handlerDir, handlerPath)\<close> and \<open>serializeHttpReq(req)\<close> are computed by
  external modules and only stored by the scheduler; they are kept as the calls they are.
\<close>

datatype path = PathResolve string string | PathJoin path string

datatype 'q serialized = SerializeHttpReq "'q http_req"

definition handlerDir :: path where
  "handlerDir = PathResolve ''__dirname'' ''../../http/''"

record 'q workerData =
  wd_queueId :: string
  wd_useLogger :: bool
  wd_isApiResource :: bool
  wd_handlerPath :: path
  wd_request :: "'q serialized"

text \<open>
  A queue entry \<open>{ workerData, resolve, reject }\<close>. The two closures settle the promise that
  \<open>addTask\<close> returned; the entry names that promise by its index.
\<close>

record 'q task =
  t_workerData :: "'q workerData"
  t_promise :: nat

datatype ('d, 'e) promise = Pending | Fulfilled "'d response" | Rejected "'e error"

text \<open>
  One spawned \<open>Worker\<close> together with the closure of its race: the data it was started
  with, the caller's promise, whether \<open>Promise.race\<close> is still unsettled, and how often
  \<open>worker.terminate()\<close> has been called on it.
\<close>

record 'q worker =
  w_data :: "'q workerData"
  w_promise :: nat
  w_racing :: bool
  w_terminated :: nat

text \<open>
  The \<open>WorkerManager\<close> object (its five fields) followed by the part of the environment
  it acts on: the promises handed to callers, the workers spawned so far in spawn order,
  and the errors thrown out of the \<open>catch\<close> handler, which nothing handles. What the
  process does about such an unhandled rejection is not part of the scheduler and is left
  open: the list only records that it happened.
\<close>

record ('q, 'd, 'e) manager =
  maxWorkers :: int
  currWorker :: int
  taskQueue :: "'q task list"
  timeoutMs :: int
  useLogger :: bool
  promises :: "('d, 'e) promise list"
  workers :: "'q worker list"
  uncaught :: "'e error list"

definition WorkerManager :: "('q, 'd, 'e) manager" where
  "WorkerManager =
     \<lparr>maxWorkers = 10, currWorker = 0, taskQueue = [], timeoutMs = 10000, useLogger = False,
      promises = [], workers = [], uncaught = []\<rparr>"

section \<open>Numbers in template strings\<close>

text \<open>
  A number inside a template literal is written in decimal, with a leading minus sign when
  negative. The numbers that occur are integers: a list length, \<open>Date.now()\<close>, an exit code.
\<close>

definition digit_char :: "nat \<Rightarrow> char" where
  "digit_char d = ''0123456789'' ! d"

fun decimal :: "nat \<Rightarrow> string" where
  "decimal n = (if n < 10 then [digit_char n] else decimal (n div 10) @ [digit_char (n mod 10)])"

declare decimal.simps [simp del]

definition number_string :: "int \<Rightarrow> string" where
  "number_string i = (if i < 0 then CHR ''-'' # decimal (nat (- i)) else decimal (nat i))"

section \<open>The scheduler\<close>

definition createQueueId :: "('q, 'd, 'e) manager \<Rightarrow> int \<Rightarrow> string" where
  "createQueueId s dateTime =
     (let queueCount = length (taskQueue s)
      in ''q'' @ decimal queueCount @ ''.'' @ number_string dateTime)"

definition spawn :: "'q task \<Rightarrow> 'q worker" where
  "spawn t = \<lparr>w_data = t_workerData t, w_promise = t_promise t, w_racing = True, w_terminated = 0\<rparr>"

definition runNext :: "('q, 'd, 'e) manager \<Rightarrow> ('q, 'd, 'e) manager" where
  "runNext s =
     (if currWorker s \<ge> maxWorkers s \<or> length (taskQueue s) < 1 then s
      else case taskQueue s of
             [] \<Rightarrow> s
           | t # rest \<Rightarrow>
               s\<lparr>taskQueue := rest, currWorker := currWorker s + 1,
                 workers := workers s @ [spawn t]\<rparr>)"

definition addTask ::
  "string \<Rightarrow> 'q http_req \<Rightarrow> int \<Rightarrow> ('q, 'd, 'e) manager \<Rightarrow> ('q, 'd, 'e) manager" where
  "addTask handlerPath req now s =
     (let queueId = createQueueId s now;
          workerData = \<lparr>wd_queueId = queueId, wd_useLogger = useLogger s,
                        wd_isApiResource = isApiRoute req,
                        wd_handlerPath = PathJoin handlerDir handlerPath,
                        wd_request = SerializeHttpReq req\<rparr>;
          p = length (promises s)
      in runNext (s\<lparr>promises := promises s @ [Pending],
                    taskQueue := taskQueue s @ [\<lparr>t_workerData = workerData, t_promise = p\<rparr>]\<rparr>))"

text \<open>\<open>resolve\<close> and \<open>reject\<close> of a caller's promise: a settled promise stays as it is.\<close>

definition settle ::
  "nat \<Rightarrow> ('d, 'e) promise \<Rightarrow> ('q, 'd, 'e) manager \<Rightarrow> ('q, 'd, 'e) manager" where
  "settle p v s =
     (if p < length (promises s) \<and> promises s ! p = Pending
      then s\<lparr>promises := (promises s)[p := v]\<rparr> else s)"

definition terminate :: "nat \<Rightarrow> ('q, 'd, 'e) manager \<Rightarrow> ('q, 'd, 'e) manager" where
  "terminate w s =
     s\<lparr>workers := (workers s)[w := (workers s ! w)\<lparr>w_terminated := w_terminated (workers s ! w) + 1\<rparr>]\<rparr>"

text \<open>
  The \<open>then\<close> handler of the race of worker \<open>w\<close>. Nothing in it throws (settling a promise
  does not, and the construction of a \<open>Worker\<close> inside \<open>runNext\<close> is taken to succeed), so
  the \<open>catch\<close> handler chained after it only ever sees a rejection of the race itself.
\<close>

definition race_then ::
  "nat \<Rightarrow> 'd response \<Rightarrow> ('q, 'd, 'e) manager \<Rightarrow> ('q, 'd, 'e) manager" where
  "race_then w resp s =
     (let s1 = settle (w_promise (workers s ! w)) (Fulfilled resp) s;
          s2 = s1\<lparr>currWorker := currWorker s1 - 1\<rparr>
      in runNext s2)"

text \<open>
  The \<open>catch\<close> handler of the race of worker \<open>w\<close>. The \<open>throw\<close> of the second branch leaves
  the handler at once: the error is recorded as uncaught and the two statements after the
  conditional are not reached.
\<close>

definition race_catch ::
  "'d exceptions \<Rightarrow> nat \<Rightarrow> 'e error \<Rightarrow> ('q, 'd, 'e) manager \<Rightarrow> ('q, 'd, 'e) manager" where
  "race_catch X w err s =
     (let s1 = terminate w s;
          p = w_promise (workers s ! w)
      in case err of
           ErrorRequestTimeout msg \<Rightarrow>
             (let s2 = (if wd_isApiResource (w_data (workers s ! w))
                        then settle p (Fulfilled (toHttpApiResponse X msg)) s1
                        else settle p (Fulfilled (toHttpResponse X msg)) s1);
                  s3 = s2\<lparr>currWorker := currWorker s2 - 1\<rparr>
              in runNext s3)
         | ErrorWorkerExit msg \<Rightarrow> s1\<lparr>uncaught := uncaught s1 @ [err]\<rparr>
         | WorkerError e \<Rightarrow>
             (let s2 = settle p (Rejected err) s1;
                  s3 = s2\<lparr>currWorker := currWorker s2 - 1\<rparr>
              in runNext s3))"

section \<open>Events\<close>

text \<open>
  What can happen to the scheduler: a call of \<open>addTask\<close> (with the value \<open>Date.now()\<close>
  returns during it), the three events of a worker, and the expiry of the timer of a
  worker's race. A race settles with the first of these that settles one of its two
  promises; whatever arrives for a worker whose race has settled changes nothing.
\<close>

datatype ('q, 'd, 'e) event =
    AddTask string "'q http_req" int
  | Message nat "'d response"
  | WorkerErr nat 'e
  | Exit nat int
  | TimerFired nat

definition racing :: "nat \<Rightarrow> ('q, 'd, 'e) manager \<Rightarrow> bool" where
  "racing w s = (w < length (workers s) \<and> w_racing (workers s ! w))"

definition finish_race :: "nat \<Rightarrow> ('q, 'd, 'e) manager \<Rightarrow> ('q, 'd, 'e) manager" where
  "finish_race w s = s\<lparr>workers := (workers s)[w := (workers s ! w)\<lparr>w_racing := False\<rparr>]\<rparr>"

fun step ::
  "'d exceptions \<Rightarrow> ('q, 'd, 'e) event \<Rightarrow> ('q, 'd, 'e) manager \<Rightarrow> ('q, 'd, 'e) manager" where
  "step X (AddTask handlerPath req now) s = addTask handlerPath req now s"
| "step X (Message w resp) s =
     (if racing w s then race_then w resp (finish_race w s) else s)"
| "step X (WorkerErr w e) s =
     (if racing w s then race_catch X w (WorkerError e) (finish_race w s) else s)"
| "step X (Exit w exitCode) s =
     (if exitCode \<noteq> 0 \<and> racing w s
      then race_catch X w
             (ErrorWorkerExit (''worker stopped with exit code '' @ number_string exitCode))
             (finish_race w s)
      else s)"
| "step X (TimerFired w) s =
     (if racing w s
      then race_catch X w (ErrorRequestTimeout ''request timeout'') (finish_race w s)
      else s)"

fun run ::
  "'d exceptions \<Rightarrow> ('q, 'd, 'e) event list \<Rightarrow> ('q, 'd, 'e) manager \<Rightarrow> ('q, 'd, 'e) manager" where
  "run X [] s = s"
| "run X (ev # evs) s = run X evs (step X ev s)"

section \<open>The dispatch facade\<close>

text \<open>
  What the middleware returned by \<open>handleRequest\<close> does with the express response object
  and \<open>next\<close> once the promise of \<open>addTask\<close> is in a given state: nothing while it is
  pending, the \<open>then\<close> callback when fulfilled, the \<open>catch\<close> callback (log, then
  \<open>next(err)\<close>) when rejected. The two argument checks made before the middleware is built
  are not needed for any property below.
\<close>

datatype ('d, 'e) reply =
    StatusJson int 'd
  | StatusSend int 'd
  | LogAndNext "'e error"

definition on_fulfilled :: "'d response \<Rightarrow> ('d, 'e) reply" where
  "on_fulfilled r =
     (if isApiResource r then StatusJson (httpCode r) (data r)
      else StatusSend (httpCode r) (data r))"

fun handleRequest :: "('d, 'e) promise \<Rightarrow> ('d, 'e) reply option" where
  "handleRequest Pending = None"
| "handleRequest (Fulfilled r) = Some (on_fulfilled r)"
| "handleRequest (Rejected err) = Some (LogAndNext err)"

section \<open>Notions the properties are stated with\<close>

text \<open>The workers whose race is still open: the executions admitted and not yet completed.\<close>

definition running :: "('q, 'd, 'e) manager \<Rightarrow> nat" where
  "running s = length (filter w_racing (workers s))"

text \<open>The calls of \<open>addTask\<close> among a list of events.\<close>

fun is_submission :: "('q, 'd, 'e) event \<Rightarrow> bool" where
  "is_submission (AddTask h r n) = True"
| "is_submission _ = False"

definition submissions :: "('q, 'd, 'e) event list \<Rightarrow> nat" where
  "submissions evs = length (filter is_submission evs)"

text \<open>
  Slot accounting: the counter is the number of open races plus the number of errors that
  left the \<open>catch\<close> handler by \<open>throw\<close>, and it does not exceed the limit.
\<close>

definition counted :: "int \<Rightarrow> ('q, 'd, 'e) manager \<Rightarrow> bool" where
  "counted m s \<longleftrightarrow>
     maxWorkers s = m \<and> currWorker s \<le> m \<and>
     currWorker s = int (running s) + int (length (uncaught s))"

text \<open>
  Promise \<open>i\<close> belongs to the \<open>i\<close>-th call of \<open>addTask\<close>. The workers in spawn order,
  followed by the queue, are the submissions in submission order.
\<close>

definition in_order :: "('q, 'd, 'e) manager \<Rightarrow> bool" where
  "in_order s \<longleftrightarrow>
     map w_promise (workers s) @ map t_promise (taskQueue s) = [0..<length (promises s)]"

text \<open>Every open race and every queued entry still owes its caller an outcome.\<close>

definition owed :: "('q, 'd, 'e) manager \<Rightarrow> bool" where
  "owed s \<longleftrightarrow>
     (\<forall>w < length (workers s). w_racing (workers s ! w) \<longrightarrow>
        promises s ! w_promise (workers s ! w) = Pending) \<and>
     (\<forall>t \<in> set (taskQueue s). promises s ! t_promise t = Pending)"

text \<open>
  The queue entry a worker was started from, and the entries the calls of \<open>addTask\<close> in a
  list of events build, in the order of the calls: each from the handler path, the request
  and the clock value of its call, and from the manager as the call finds it.
\<close>

definition admitted_task :: "'q worker \<Rightarrow> 'q task" where
  "admitted_task w = \<lparr>t_workerData = w_data w, t_promise = w_promise w\<rparr>"

fun submitted ::
  "'d exceptions \<Rightarrow> ('q, 'd, 'e) event list \<Rightarrow> ('q, 'd, 'e) manager \<Rightarrow> 'q task list" where
  "submitted X [] s = []"
| "submitted X (AddTask handlerPath req now # evs) s =
     \<lparr>t_workerData =
        \<lparr>wd_queueId = createQueueId s now, wd_useLogger = useLogger s,
         wd_isApiResource = isApiRoute req,
         wd_handlerPath = PathJoin handlerDir handlerPath,
         wd_request = SerializeHttpReq req\<rparr>,
      t_promise = length (promises s)\<rparr>
     # submitted X evs (step X (AddTask handlerPath req now) s)"
| "submitted X (ev # evs) s = submitted X evs (step X ev s)"

text \<open>
  Promise \<open>p\<close> is pending and nothing holds its \<open>resolve\<close> or \<open>reject\<close> any more: no
  open race and no queued entry.
\<close>

definition abandoned :: "nat \<Rightarrow> ('q, 'd, 'e) manager \<Rightarrow> bool" where
  "abandoned p s \<longleftrightarrow>
     p < length (promises s) \<and> promises s ! p = Pending \<and>
     (\<forall>w < length (workers s). w_racing (workers s ! w) \<longrightarrow> w_promise (workers s ! w) \<noteq> p) \<and>
     (\<forall>t \<in> set (taskQueue s). t_promise t \<noteq> p)"

section \<open>Concrete inputs\<close>

definition example_exceptions :: "string exceptions" where
  "example_exceptions =
     \<lparr>toHttpApiResponse = (\<lambda>msg. \<lparr>isApiResource = True, httpCode = 408, data = msg\<rparr>),
      toHttpResponse = (\<lambda>msg. \<lparr>isApiResource = False, httpCode = 408, data = msg\<rparr>)\<rparr>"

definition api_req :: "unit http_req" where
  "api_req = \<lparr>isApiRoute = True, req_rest = ()\<rparr>"

definition web_req :: "unit http_req" where
  "web_req = \<lparr>isApiRoute = False, req_rest = ()\<rparr>"

definition three_then_reply :: "(unit, string, string) event list" where
  "three_then_reply =
     [AddTask ''a'' api_req 1000, AddTask ''b'' web_req 1001, AddTask ''c'' api_req 1002,
      Message 0 \<lparr>isApiResource = True, httpCode = 200, data = ''ok''\<rparr>]"

definition two_tasks :: "(unit, string, string) event list" where
  "two_tasks = [AddTask ''a'' api_req 1000, AddTask ''b'' web_req 1000]"

definition busy :: "(unit, string, string) manager" where
  "busy = run example_exceptions two_tasks (WorkerManager\<lparr>maxWorkers := 1, useLogger := False\<rparr>)"

definition ok_reply :: "string response" where
  "ok_reply = \<lparr>isApiResource = True, httpCode = 200, data = ''ok''\<rparr>"

definition first_task :: "unit task" where
  "first_task =
     \<lparr>t_workerData =
        \<lparr>wd_queueId = ''q0.1000'', wd_useLogger = False, wd_isApiResource = True,
         wd_handlerPath = PathJoin handlerDir ''a'', wd_request = SerializeHttpReq api_req\<rparr>,
      t_promise = 0\<rparr>"

definition waiting_room :: "(unit, string, string) manager" where
  "waiting_room = WorkerManager\<lparr>taskQueue := [first_task], promises := [Pending]\<rparr>"

section \<open>Slot accounting\<close>

lemma filter_update_drop:
  "i < length xs \<Longrightarrow> P (xs ! i) \<Longrightarrow> \<not> P x \<Longrightarrow>
   Suc (length (filter P (xs[i := x]))) = length (filter P xs)"
proof (induction xs arbitrary: i)
  case Nil
  then show ?case by simp
next
  case (Cons a xs)
  then show ?case by (cases i) auto
qed

lemma filter_update_keep:
  "i < length xs \<Longrightarrow> P x = P (xs ! i) \<Longrightarrow>
   length (filter P (xs[i := x])) = length (filter P xs)"
proof (induction xs arbitrary: i)
  case Nil
  then show ?case by simp
next
  case (Cons a xs)
  then show ?case by (cases i) auto
qed

lemma running_finish_race:
  "racing w s \<Longrightarrow> Suc (running (finish_race w s)) = running s"
  by (simp add: racing_def running_def finish_race_def filter_update_drop)

lemma running_terminate [simp]: "running (terminate w s) = running s"
proof (cases "w < length (workers s)")
  case True
  then show ?thesis by (simp add: running_def terminate_def filter_update_keep)
next
  case False
  then have "length (workers s) \<le> w" by simp
  then show ?thesis by (simp add: running_def terminate_def list_update_beyond)
qed

lemma settle_fields [simp]:
  "workers (settle p v s) = workers s"
  "taskQueue (settle p v s) = taskQueue s"
  "currWorker (settle p v s) = currWorker s"
  "maxWorkers (settle p v s) = maxWorkers s"
  "uncaught (settle p v s) = uncaught s"
  "length (promises (settle p v s)) = length (promises s)"
  by (simp_all add: settle_def)

lemma terminate_fields [simp]:
  "promises (terminate w s) = promises s"
  "taskQueue (terminate w s) = taskQueue s"
  "currWorker (terminate w s) = currWorker s"
  "maxWorkers (terminate w s) = maxWorkers s"
  "uncaught (terminate w s) = uncaught s"
  "length (workers (terminate w s)) = length (workers s)"
  by (simp_all add: terminate_def)

lemma finish_race_fields [simp]:
  "promises (finish_race w s) = promises s"
  "taskQueue (finish_race w s) = taskQueue s"
  "currWorker (finish_race w s) = currWorker s"
  "maxWorkers (finish_race w s) = maxWorkers s"
  "uncaught (finish_race w s) = uncaught s"
  "length (workers (finish_race w s)) = length (workers s)"
  by (simp_all add: finish_race_def)

lemma running_settle [simp]: "running (settle p v s) = running s"
  by (simp add: running_def)

lemma running_currWorker_update [simp]: "running (s\<lparr>currWorker := c\<rparr>) = running s"
  by (simp add: running_def)

lemma running_uncaught_update [simp]: "running (s\<lparr>uncaught := c\<rparr>) = running s"
  by (simp add: running_def)

lemma counted_runNext: "counted m s \<Longrightarrow> counted m (runNext s)"
  by (auto simp: counted_def runNext_def running_def spawn_def split: list.splits)

lemma counted_release:
  assumes "counted m s" and "Suc (running s') = running s"
    and "maxWorkers s' = maxWorkers s" and "currWorker s' = currWorker s"
    and "uncaught s' = uncaught s"
  shows "counted m (runNext (s'\<lparr>currWorker := currWorker s' - 1\<rparr>))"
proof (rule counted_runNext)
  show "counted m (s'\<lparr>currWorker := currWorker s' - 1\<rparr>)"
    using assms by (simp add: counted_def)
qed

lemma counted_race_then:
  "counted m s \<Longrightarrow> racing w s \<Longrightarrow> counted m (race_then w r (finish_race w s))"
  unfolding race_then_def Let_def
  by (rule counted_release [where s = s]) (simp_all add: running_finish_race)

lemma counted_race_catch:
  assumes "counted m s" and "racing w s"
  shows "counted m (race_catch X w err (finish_race w s))"
proof (cases err)
  case (ErrorRequestTimeout msg)
  show ?thesis
    unfolding race_catch_def Let_def ErrorRequestTimeout error.case
    by (rule counted_release [where s = s]) (use assms in \<open>simp_all add: running_finish_race\<close>)
next
  case (ErrorWorkerExit msg)
  have "Suc (running (finish_race w s)) = running s"
    using assms(2) by (rule running_finish_race)
  then show ?thesis
    using assms(1) by (simp add: race_catch_def ErrorWorkerExit counted_def)
next
  case (WorkerError e)
  show ?thesis
    unfolding race_catch_def Let_def WorkerError error.case
    by (rule counted_release [where s = s]) (use assms in \<open>simp_all add: running_finish_race\<close>)
qed

lemma counted_addTask: "counted m s \<Longrightarrow> counted m (addTask h r n s)"
  unfolding addTask_def Let_def
  by (rule counted_runNext) (simp add: counted_def running_def)

lemma counted_step: "counted m s \<Longrightarrow> counted m (step X ev s)"
  by (cases ev) (simp_all add: counted_addTask counted_race_then counted_race_catch)

lemma counted_run: "counted m s \<Longrightarrow> counted m (run X evs s)"
  by (induction evs arbitrary: s) (simp_all add: counted_step)

lemma counted_init: "0 \<le> m \<Longrightarrow> counted m (WorkerManager\<lparr>maxWorkers := m, useLogger := u\<rparr>)"
  by (simp add: counted_def WorkerManager_def running_def)


lemma map_update_same: "f x = f (xs ! i) \<Longrightarrow> map f (xs[i := x]) = map f xs"
proof (induction xs arbitrary: i)
  case Nil
  then show ?case by simp
next
  case (Cons a xs)
  then show ?case by (cases i) auto
qed

lemma promise_ids_finish_race [simp]:
  "map w_promise (workers (finish_race w s)) = map w_promise (workers s)"
  by (simp add: finish_race_def map_update_same)

lemma promise_ids_terminate [simp]:
  "map w_promise (workers (terminate w s)) = map w_promise (workers s)"
  by (simp add: terminate_def map_update_same)

lemma runNext_fields [simp]:
  "promises (runNext s) = promises s"
  "maxWorkers (runNext s) = maxWorkers s"
  "uncaught (runNext s) = uncaught s"
  by (simp_all add: runNext_def split: list.splits)

lemma in_order_runNext: "in_order s \<Longrightarrow> in_order (runNext s)"
  by (auto simp: in_order_def runNext_def spawn_def split: list.splits)

lemma in_order_addTask: "in_order s \<Longrightarrow> in_order (addTask h r n s)"
  unfolding addTask_def Let_def
  by (rule in_order_runNext) (simp add: in_order_def)

lemma in_order_race_then: "in_order s \<Longrightarrow> in_order (race_then w r (finish_race w s))"
  unfolding race_then_def Let_def
  by (rule in_order_runNext) (simp add: in_order_def)

lemma in_order_race_catch: "in_order s \<Longrightarrow> in_order (race_catch X w err (finish_race w s))"
proof (cases err)
  case (ErrorRequestTimeout msg)
  assume "in_order s"
  then show ?thesis
    unfolding race_catch_def Let_def ErrorRequestTimeout error.case
    by (intro in_order_runNext) (simp add: in_order_def)
next
  case (ErrorWorkerExit msg)
  assume "in_order s"
  then show ?thesis
    by (simp add: race_catch_def ErrorWorkerExit in_order_def)
next
  case (WorkerError e)
  assume "in_order s"
  then show ?thesis
    unfolding race_catch_def Let_def WorkerError error.case
    by (intro in_order_runNext) (simp add: in_order_def)
qed

lemma in_order_step: "in_order s \<Longrightarrow> in_order (step X ev s)"
  by (cases ev) (simp_all add: in_order_addTask in_order_race_then in_order_race_catch)

lemma in_order_run: "in_order s \<Longrightarrow> in_order (run X evs s)"
  by (induction evs arbitrary: s) (simp_all add: in_order_step)

lemma in_order_init: "in_order (WorkerManager\<lparr>maxWorkers := m, useLogger := u\<rparr>)"
  by (simp add: in_order_def WorkerManager_def)

lemma length_promises_step:
  "length (promises (step X ev s)) = length (promises s) + (if is_submission ev then 1 else 0)"
proof (cases ev)
  case (AddTask h r n)
  then show ?thesis by (simp add: addTask_def Let_def)
next
  case (Message w r)
  then show ?thesis by (simp add: race_then_def Let_def)
next
  case (WorkerErr w e)
  then show ?thesis by (simp add: race_catch_def Let_def)
next
  case (Exit w c)
  then show ?thesis by (simp add: race_catch_def Let_def)
next
  case (TimerFired w)
  then show ?thesis by (simp add: race_catch_def Let_def)
qed

lemma length_promises_run:
  "length (promises (run X evs s)) = length (promises s) + submissions evs"
  by (induction evs arbitrary: s) (simp_all add: submissions_def length_promises_step)

section \<open>Promises of open races and queued entries\<close>

lemma in_order_ids:
  assumes "in_order s"
  shows "set (map w_promise (workers s) @ map t_promise (taskQueue s)) = {0..<length (promises s)}"
    and "distinct (map w_promise (workers s) @ map t_promise (taskQueue s))"
proof -
  have eq: "map w_promise (workers s) @ map t_promise (taskQueue s) = [0..<length (promises s)]"
    using assms by (simp only: in_order_def)
  show "set (map w_promise (workers s) @ map t_promise (taskQueue s)) = {0..<length (promises s)}"
    by (simp only: eq set_upt)
  show "distinct (map w_promise (workers s) @ map t_promise (taskQueue s))"
    by (simp only: eq distinct_upt)
qed

lemma in_order_worker_bound:
  assumes "in_order s" and "w < length (workers s)"
  shows "w_promise (workers s ! w) < length (promises s)"
proof -
  have "w_promise (workers s ! w) \<in> set (map w_promise (workers s) @ map t_promise (taskQueue s))"
    using assms(2) by simp
  then have "w_promise (workers s ! w) \<in> {0..<length (promises s)}"
    by (simp only: in_order_ids(1) [OF assms(1)])
  then show ?thesis by simp
qed

lemma in_order_task_bound:
  assumes "in_order s" and "t \<in> set (taskQueue s)"
  shows "t_promise t < length (promises s)"
proof -
  have "t_promise t \<in> set (map w_promise (workers s) @ map t_promise (taskQueue s))"
    using assms(2) by simp
  then have "t_promise t \<in> {0..<length (promises s)}"
    by (simp only: in_order_ids(1) [OF assms(1)])
  then show ?thesis by simp
qed

lemma in_order_workers_differ:
  assumes "in_order s" and "w < length (workers s)" and "v < length (workers s)" and "v \<noteq> w"
  shows "w_promise (workers s ! v) \<noteq> w_promise (workers s ! w)"
proof
  assume same: "w_promise (workers s ! v) = w_promise (workers s ! w)"
  have d: "distinct (map w_promise (workers s))"
    using in_order_ids(2) [OF assms(1)] by (simp only: distinct_append)
  have "map w_promise (workers s) ! v = w_promise (workers s ! v)"
    and "map w_promise (workers s) ! w = w_promise (workers s ! w)"
    using assms(2,3) by (simp_all only: nth_map)
  with same have "map w_promise (workers s) ! v = map w_promise (workers s) ! w"
    by (simp only:)
  moreover have "v < length (map w_promise (workers s))" and "w < length (map w_promise (workers s))"
    using assms(2,3) by (simp_all only: length_map)
  ultimately have "v = w"
    using d by (simp only: nth_eq_iff_index_eq)
  with assms(4) show False by contradiction
qed

lemma in_order_task_differs:
  assumes "in_order s" and "w < length (workers s)" and "t \<in> set (taskQueue s)"
  shows "t_promise t \<noteq> w_promise (workers s ! w)"
proof
  assume same: "t_promise t = w_promise (workers s ! w)"
  have "set (map w_promise (workers s)) \<inter> set (map t_promise (taskQueue s)) = {}"
    using in_order_ids(2) [OF assms(1)] by (simp only: distinct_append)
  moreover have "w_promise (workers s ! w) \<in> set (map w_promise (workers s))"
    using assms(2) by simp
  moreover have "w_promise (workers s ! w) \<in> set (map t_promise (taskQueue s))"
    using assms(3) same by (metis image_eqI set_map)
  ultimately show False by blast
qed

lemma owed_currWorker_update [simp]: "owed (s\<lparr>currWorker := c\<rparr>) = owed s"
  by (simp add: owed_def)

lemma owed_uncaught_update [simp]: "owed (s\<lparr>uncaught := u\<rparr>) = owed s"
  by (simp add: owed_def)

lemma owed_admit:
  assumes "owed s" and "taskQueue s = t # rest"
  shows "owed (s\<lparr>taskQueue := rest, currWorker := c, workers := workers s @ [spawn t]\<rparr>)"
  unfolding owed_def
proof (intro conjI allI impI ballI)
  fix i
  assume "i < length (workers (s\<lparr>taskQueue := rest, currWorker := c, workers := workers s @ [spawn t]\<rparr>))"
    and r: "w_racing (workers (s\<lparr>taskQueue := rest, currWorker := c, workers := workers s @ [spawn t]\<rparr>) ! i)"
  then have "i < length (workers s) \<or> i = length (workers s)" by auto
  then show "promises (s\<lparr>taskQueue := rest, currWorker := c, workers := workers s @ [spawn t]\<rparr>) !
        w_promise (workers (s\<lparr>taskQueue := rest, currWorker := c, workers := workers s @ [spawn t]\<rparr>) ! i) = Pending"
  proof
    assume "i < length (workers s)"
    then show ?thesis using assms(1) r by (simp add: owed_def nth_append)
  next
    assume "i = length (workers s)"
    then show ?thesis using assms by (simp add: owed_def spawn_def)
  qed
next
  fix u assume "u \<in> set (taskQueue (s\<lparr>taskQueue := rest, currWorker := c, workers := workers s @ [spawn t]\<rparr>))"
  then show "promises (s\<lparr>taskQueue := rest, currWorker := c, workers := workers s @ [spawn t]\<rparr>) ! t_promise u = Pending"
    using assms by (simp add: owed_def)
qed

lemma owed_runNext: "owed s \<Longrightarrow> owed (runNext s)"
  by (simp add: runNext_def owed_admit split: list.splits)

lemma owed_addTask:
  assumes "in_order s" and "owed s"
  shows "owed (addTask h r n s)"
  unfolding addTask_def Let_def
proof (rule owed_runNext)
  show "owed (s\<lparr>promises := promises s @ [Pending],
           taskQueue := taskQueue s @
             [\<lparr>t_workerData = \<lparr>wd_queueId = createQueueId s n, wd_useLogger = useLogger s,
                  wd_isApiResource = isApiRoute r, wd_handlerPath = PathJoin handlerDir h,
                  wd_request = SerializeHttpReq r\<rparr>,
               t_promise = length (promises s)\<rparr>]\<rparr>)"
    using assms(2) in_order_worker_bound [OF assms(1)] in_order_task_bound [OF assms(1)]
    by (auto simp: owed_def nth_append)
qed

lemma owed_closed:
  assumes "in_order s" and "owed s" and "racing w s"
    and "taskQueue s' = taskQueue s"
    and "length (workers s') = length (workers s)"
    and "\<And>i. i < length (workers s) \<Longrightarrow> i \<noteq> w \<Longrightarrow> workers s' ! i = workers s ! i"
    and "\<not> w_racing (workers s' ! w)"
    and "promises s' = promises s \<or> promises s' = (promises s)[w_promise (workers s ! w) := v]"
  shows "owed s'"
  unfolding owed_def
proof (intro conjI allI impI ballI)
  fix i assume i: "i < length (workers s')" and r: "w_racing (workers s' ! i)"
  from r assms(7) have "i \<noteq> w" by auto
  with i assms(5,6) have same: "workers s' ! i = workers s ! i" by simp
  have w: "w < length (workers s)" using assms(3) by (simp add: racing_def)
  have "w_promise (workers s ! i) \<noteq> w_promise (workers s ! w)"
    using in_order_workers_differ [OF assms(1) w] i assms(5) \<open>i \<noteq> w\<close> by simp
  moreover have "promises s ! w_promise (workers s ! i) = Pending"
    using assms(2) i r same assms(5) by (simp add: owed_def)
  ultimately show "promises s' ! w_promise (workers s' ! i) = Pending"
    using assms(8) same by auto
next
  fix t assume t: "t \<in> set (taskQueue s')"
  have w: "w < length (workers s)" using assms(3) by (simp add: racing_def)
  have "t_promise t \<noteq> w_promise (workers s ! w)"
    using in_order_task_differs [OF assms(1) w] t assms(4) by simp
  moreover have "promises s ! t_promise t = Pending"
    using assms(2) t assms(4) by (simp add: owed_def)
  ultimately show "promises s' ! t_promise t = Pending"
    using assms(8) by auto
qed

lemma settle_promises:
  "promises s1 = promises s \<Longrightarrow>
   promises (settle p v s1) = promises s \<or> promises (settle p v s1) = (promises s)[p := v]"
  by (simp add: settle_def)

lemma closed_workers:
  "i < length (workers s) \<Longrightarrow> i \<noteq> w \<Longrightarrow> workers (finish_race w s) ! i = workers s ! i"
  "i < length (workers s) \<Longrightarrow> i \<noteq> w \<Longrightarrow> workers (terminate w (finish_race w s)) ! i = workers s ! i"
  "w < length (workers s) \<Longrightarrow> \<not> w_racing (workers (finish_race w s) ! w)"
  "w < length (workers s) \<Longrightarrow> \<not> w_racing (workers (terminate w (finish_race w s)) ! w)"
  "w < length (workers s) \<Longrightarrow> w_promise (workers (finish_race w s) ! w) = w_promise (workers s ! w)"
  "w < length (workers s) \<Longrightarrow> w_data (workers (finish_race w s) ! w) = w_data (workers s ! w)"
  by (simp_all add: finish_race_def terminate_def)

lemma owed_settled:
  assumes "in_order s" and "owed s" and "racing w s"
  shows "owed (settle (w_promise (workers s ! w)) v (finish_race w s))"
    and "owed (settle (w_promise (workers s ! w)) v (terminate w (finish_race w s)))"
    and "owed (terminate w (finish_race w s))"
proof -
  have w: "w < length (workers s)" using assms(3) by (simp add: racing_def)
  show "owed (settle (w_promise (workers s ! w)) v (finish_race w s))"
    by (rule owed_closed [OF assms, where v = v])
      (use w in \<open>simp_all add: closed_workers settle_promises\<close>)
  show "owed (settle (w_promise (workers s ! w)) v (terminate w (finish_race w s)))"
    by (rule owed_closed [OF assms, where v = v])
      (use w in \<open>simp_all add: closed_workers settle_promises\<close>)
  show "owed (terminate w (finish_race w s))"
    by (rule owed_closed [OF assms, where v = v])
      (use w in \<open>simp_all add: closed_workers\<close>)
qed

lemma owed_race_then:
  assumes "in_order s" and "owed s" and "racing w s"
  shows "owed (race_then w r (finish_race w s))"
proof -
  have w: "w < length (workers s)" using assms(3) by (simp add: racing_def)
  show ?thesis
    unfolding race_then_def Let_def
    using owed_settled(1) [OF assms] w by (intro owed_runNext) (simp add: closed_workers)
qed

lemma owed_race_catch:
  assumes "in_order s" and "owed s" and "racing w s"
  shows "owed (race_catch X w err (finish_race w s))"
proof -
  have w: "w < length (workers s)" using assms(3) by (simp add: racing_def)
  show ?thesis
  proof (cases err)
    case (ErrorRequestTimeout msg)
    show ?thesis
      unfolding race_catch_def Let_def ErrorRequestTimeout error.case
      using owed_settled(2) [OF assms] w by (intro owed_runNext) (simp add: closed_workers)
  next
    case (ErrorWorkerExit msg)
    show ?thesis
      unfolding race_catch_def Let_def ErrorWorkerExit error.case
      using owed_settled(3) [OF assms] by simp
  next
    case (WorkerError e)
    show ?thesis
      unfolding race_catch_def Let_def WorkerError error.case
      using owed_settled(2) [OF assms] w by (intro owed_runNext) (simp add: closed_workers)
  qed
qed

lemma owed_step: "in_order s \<Longrightarrow> owed s \<Longrightarrow> owed (step X ev s)"
  by (cases ev) (simp_all add: owed_addTask owed_race_then owed_race_catch)

lemma owed_run: "in_order s \<Longrightarrow> owed s \<Longrightarrow> owed (run X evs s)"
  by (induction evs arbitrary: s) (simp_all add: owed_step in_order_step)

lemma owed_init: "owed (WorkerManager\<lparr>maxWorkers := m, useLogger := u\<rparr>)"
  by (simp add: owed_def WorkerManager_def)

section \<open>What a settled race leaves behind\<close>

lemma reachable_in_order: "in_order (run X evs (WorkerManager\<lparr>maxWorkers := m, useLogger := u\<rparr>))"
  by (intro in_order_run in_order_init)

lemma reachable_owed: "owed (run X evs (WorkerManager\<lparr>maxWorkers := m, useLogger := u\<rparr>))"
  by (intro owed_run in_order_init owed_init)

lemma racing_owes:
  assumes "in_order s" and "owed s" and "racing w s"
  shows "w_promise (workers s ! w) < length (promises s)"
    and "promises s ! w_promise (workers s ! w) = Pending"
proof -
  have w: "w < length (workers s)" and r: "w_racing (workers s ! w)"
    using assms(3) by (simp_all add: racing_def)
  show "w_promise (workers s ! w) < length (promises s)"
    using assms(1) w by (rule in_order_worker_bound)
  show "promises s ! w_promise (workers s ! w) = Pending"
    using assms(2) w r by (simp add: owed_def)
qed

lemma settle_nth:
  "p < length (promises s) \<Longrightarrow> promises s ! p = Pending \<Longrightarrow> promises (settle p v s) ! p = v"
  by (simp add: settle_def)

lemma runNext_workers_nth:
  "i < length (workers s) \<Longrightarrow> workers (runNext s) ! i = workers s ! i"
  by (simp add: runNext_def nth_append split: list.splits)

lemma runNext_admits:
  "currWorker s < maxWorkers s \<Longrightarrow> taskQueue s = t # rest \<Longrightarrow>
   runNext s = s\<lparr>taskQueue := rest, currWorker := currWorker s + 1,
                 workers := workers s @ [spawn t]\<rparr>"
  by (simp add: runNext_def)

lemma terminated_finish_race:
  "w < length (workers s) \<Longrightarrow>
   w_terminated (workers (terminate w (finish_race w s)) ! w) = Suc (w_terminated (workers s ! w))"
  by (simp add: terminate_def finish_race_def)

lemma race_then_promise:
  assumes "in_order s" and "owed s" and "racing w s"
  shows "promises (race_then w r (finish_race w s)) ! w_promise (workers s ! w) = Fulfilled r"
proof -
  have w: "w < length (workers s)" using assms(3) by (simp add: racing_def)
  show ?thesis
    using racing_owes [OF assms] w by (simp add: race_then_def Let_def closed_workers settle_nth)
qed

lemma race_catch_timeout_promise:
  assumes "in_order s" and "owed s" and "racing w s"
  shows "promises (race_catch X w (ErrorRequestTimeout msg) (finish_race w s)) ! w_promise (workers s ! w)
         = Fulfilled (if wd_isApiResource (w_data (workers s ! w))
                      then toHttpApiResponse X msg else toHttpResponse X msg)"
proof -
  have w: "w < length (workers s)" using assms(3) by (simp add: racing_def)
  show ?thesis
    using racing_owes [OF assms] w by (simp add: race_catch_def Let_def closed_workers settle_nth)
qed

lemma race_catch_error_promise:
  assumes "in_order s" and "owed s" and "racing w s"
  shows "promises (race_catch X w (WorkerError e) (finish_race w s)) ! w_promise (workers s ! w)
         = Rejected (WorkerError e)"
proof -
  have w: "w < length (workers s)" using assms(3) by (simp add: racing_def)
  show ?thesis
    using racing_owes [OF assms] w by (simp add: race_catch_def Let_def closed_workers settle_nth)
qed

lemma race_catch_terminated:
  assumes "w < length (workers s)"
  shows "w_terminated (workers (race_catch X w err (finish_race w s)) ! w)
         = Suc (w_terminated (workers s ! w))"
proof (cases err)
  case (ErrorRequestTimeout msg)
  then show ?thesis
    using assms by (simp add: race_catch_def Let_def runNext_workers_nth terminated_finish_race)
next
  case (ErrorWorkerExit msg)
  then show ?thesis
    using assms by (simp add: race_catch_def Let_def terminated_finish_race)
next
  case (WorkerError e)
  then show ?thesis
    using assms by (simp add: race_catch_def Let_def runNext_workers_nth terminated_finish_race)
qed

lemma race_then_not_terminated:
  assumes "w < length (workers s)"
  shows "w_terminated (workers (race_then w r (finish_race w s)) ! w) = w_terminated (workers s ! w)"
  using assms by (simp add: race_then_def Let_def runNext_workers_nth) (simp add: finish_race_def)

section \<open>Promises nobody can settle\<close>

lemma abandoned_updates [simp]:
  "abandoned p (s\<lparr>currWorker := c\<rparr>) = abandoned p s"
  "abandoned p (s\<lparr>uncaught := u\<rparr>) = abandoned p s"
  by (simp_all add: abandoned_def)

lemma abandoned_admit:
  assumes "abandoned p s" and "taskQueue s = t # rest"
  shows "abandoned p (s\<lparr>taskQueue := rest, currWorker := c, workers := workers s @ [spawn t]\<rparr>)"
proof -
  have "w_promise ((workers s @ [spawn t]) ! i) \<noteq> p"
    if "i < Suc (length (workers s))" and "w_racing ((workers s @ [spawn t]) ! i)" for i
  proof (cases "i < length (workers s)")
    case True
    then show ?thesis using assms(1) that by (simp add: abandoned_def nth_append)
  next
    case False
    with that have "i = length (workers s)" by simp
    then show ?thesis using assms by (simp add: abandoned_def spawn_def)
  qed
  then show ?thesis using assms by (simp add: abandoned_def)
qed

lemma abandoned_runNext: "abandoned p s \<Longrightarrow> abandoned p (runNext s)"
  by (simp add: runNext_def abandoned_admit split: list.splits)

lemma abandoned_addTask:
  assumes "abandoned p s"
  shows "abandoned p (addTask h r n s)"
  unfolding addTask_def Let_def
proof (rule abandoned_runNext)
  show "abandoned p (s\<lparr>promises := promises s @ [Pending],
           taskQueue := taskQueue s @
             [\<lparr>t_workerData = \<lparr>wd_queueId = createQueueId s n, wd_useLogger = useLogger s,
                  wd_isApiResource = isApiRoute r, wd_handlerPath = PathJoin handlerDir h,
                  wd_request = SerializeHttpReq r\<rparr>,
               t_promise = length (promises s)\<rparr>]\<rparr>)"
    using assms by (auto simp: abandoned_def nth_append)
qed

lemma abandoned_closed:
  assumes "abandoned p s" and "racing w s"
    and "taskQueue s' = taskQueue s"
    and "length (workers s') = length (workers s)"
    and "\<And>i. i < length (workers s) \<Longrightarrow> i \<noteq> w \<Longrightarrow> workers s' ! i = workers s ! i"
    and "\<not> w_racing (workers s' ! w)"
    and "promises s' = promises s \<or> promises s' = (promises s)[w_promise (workers s ! w) := v]"
  shows "abandoned p s'"
proof -
  have other: "w_promise (workers s ! w) \<noteq> p"
    using assms(1,2) by (simp add: abandoned_def racing_def)
  have "p < length (promises s')" and "promises s' ! p = Pending"
    using assms(1,7) other by (auto simp: abandoned_def)
  moreover have "w_promise (workers s' ! i) \<noteq> p"
    if "i < length (workers s')" and "w_racing (workers s' ! i)" for i
  proof -
    from that assms(6) have "i \<noteq> w" by auto
    with that assms(4,5) have "workers s' ! i = workers s ! i" by simp
    with that assms(1,4) show ?thesis by (simp add: abandoned_def)
  qed
  moreover have "t_promise t \<noteq> p" if "t \<in> set (taskQueue s')" for t
    using that assms(1,3) by (simp add: abandoned_def)
  ultimately show ?thesis by (simp add: abandoned_def)
qed

lemma abandoned_settled:
  assumes "abandoned p s" and "racing w s"
  shows "abandoned p (settle (w_promise (workers s ! w)) v (finish_race w s))"
    and "abandoned p (settle (w_promise (workers s ! w)) v (terminate w (finish_race w s)))"
    and "abandoned p (terminate w (finish_race w s))"
proof -
  have w: "w < length (workers s)" using assms(2) by (simp add: racing_def)
  show "abandoned p (settle (w_promise (workers s ! w)) v (finish_race w s))"
    by (rule abandoned_closed [OF assms, where v = v])
      (use w in \<open>simp_all add: closed_workers settle_promises\<close>)
  show "abandoned p (settle (w_promise (workers s ! w)) v (terminate w (finish_race w s)))"
    by (rule abandoned_closed [OF assms, where v = v])
      (use w in \<open>simp_all add: closed_workers settle_promises\<close>)
  show "abandoned p (terminate w (finish_race w s))"
    by (rule abandoned_closed [OF assms, where v = v])
      (use w in \<open>simp_all add: closed_workers\<close>)
qed

lemma abandoned_race_then:
  assumes "abandoned p s" and "racing w s"
  shows "abandoned p (race_then w r (finish_race w s))"
proof -
  have w: "w < length (workers s)" using assms(2) by (simp add: racing_def)
  show ?thesis
    unfolding race_then_def Let_def
    using abandoned_settled(1) [OF assms] w by (intro abandoned_runNext) (simp add: closed_workers)
qed

lemma abandoned_race_catch:
  assumes "abandoned p s" and "racing w s"
  shows "abandoned p (race_catch X w err (finish_race w s))"
proof -
  have w: "w < length (workers s)" using assms(2) by (simp add: racing_def)
  show ?thesis
  proof (cases err)
    case (ErrorRequestTimeout msg)
    show ?thesis
      unfolding race_catch_def Let_def ErrorRequestTimeout error.case
      using abandoned_settled(2) [OF assms] w by (intro abandoned_runNext) (simp add: closed_workers)
  next
    case (ErrorWorkerExit msg)
    show ?thesis
      unfolding race_catch_def Let_def ErrorWorkerExit error.case
      using abandoned_settled(3) [OF assms] by simp
  next
    case (WorkerError e)
    show ?thesis
      unfolding race_catch_def Let_def WorkerError error.case
      using abandoned_settled(2) [OF assms] w by (intro abandoned_runNext) (simp add: closed_workers)
  qed
qed

lemma abandoned_step: "abandoned p s \<Longrightarrow> abandoned p (step X ev s)"
  by (cases ev) (simp_all add: abandoned_addTask abandoned_race_then abandoned_race_catch)

lemma abandoned_run: "abandoned p s \<Longrightarrow> abandoned p (run X evs s)"
  by (induction evs arbitrary: s) (simp_all add: abandoned_step)

lemma exit_abandons:
  assumes "in_order s" and "owed s" and "racing w s"
  shows "abandoned (w_promise (workers s ! w))
           (race_catch X w (ErrorWorkerExit msg) (finish_race w s))"
proof -
  have w: "w < length (workers s)" using assms(3) by (simp add: racing_def)
  let ?p = "w_promise (workers s ! w)"
  let ?s = "terminate w (finish_race w s)"
  have "?p < length (promises ?s)" and "promises ?s ! ?p = Pending"
    using racing_owes [OF assms] by simp_all
  moreover have "w_promise (workers ?s ! i) \<noteq> ?p"
    if "i < length (workers ?s)" and "w_racing (workers ?s ! i)" for i
  proof -
    from that w have "i \<noteq> w" using closed_workers(4) [of w s] by auto
    with that have "workers ?s ! i = workers s ! i" and "i < length (workers s)"
      by (simp_all add: closed_workers)
    with \<open>i \<noteq> w\<close> show ?thesis
      using in_order_workers_differ [OF assms(1) w, of i] by simp
  qed
  moreover have "t_promise t \<noteq> ?p" if "t \<in> set (taskQueue ?s)" for t
    using that in_order_task_differs [OF assms(1) w, of t] by simp
  ultimately have "abandoned ?p ?s" by (simp add: abandoned_def)
  then show ?thesis by (simp add: race_catch_def)
qed

section \<open>The admission gate\<close>

lemma starved_step:
  assumes "maxWorkers s = 0" and "currWorker s = 0" and "workers s = []"
  shows "maxWorkers (step X ev s) = 0 \<and> currWorker (step X ev s) = 0 \<and>
         workers (step X ev s) = [] \<and>
         promises (step X ev s) = promises s @ replicate (if is_submission ev then 1 else 0) Pending"
  using assms by (cases ev) (simp_all add: addTask_def runNext_def racing_def)

lemma starved_run:
  assumes "maxWorkers s = 0" and "currWorker s = 0" and "workers s = []"
  shows "workers (run X evs s) = [] \<and>
         promises (run X evs s) = promises s @ replicate (submissions evs) Pending"
  using assms
proof (induction evs arbitrary: s)
  case Nil
  then show ?case by (simp add: submissions_def)
next
  case (Cons ev evs)
  have st: "maxWorkers (step X ev s) = 0" "currWorker (step X ev s) = 0"
    "workers (step X ev s) = []"
    "promises (step X ev s) = promises s @ replicate (if is_submission ev then 1 else 0) Pending"
    using starved_step [OF Cons.prems, of X ev] by simp_all
  show ?case
    using Cons.IH [OF st(1-3)] st(4)
    by (simp add: submissions_def replicate_app_Cons_same)
qed

lemma runNext_closed_gate:
  "maxWorkers s \<le> currWorker s \<or> taskQueue s = [] \<Longrightarrow> runNext s = s"
  by (auto simp: runNext_def)

lemma race_catch_uncaught:
  "uncaught (race_catch X w (ErrorRequestTimeout msg) s) = uncaught s"
  "uncaught (race_catch X w (WorkerError e) s) = uncaught s"
  "uncaught (race_catch X w (ErrorWorkerExit msg) s) = uncaught s @ [ErrorWorkerExit msg]"
  "promises (race_catch X w (ErrorWorkerExit msg) s) = promises s"
  by (simp_all add: race_catch_def Let_def)

lemma release_admits:
  assumes "currWorker s \<le> maxWorkers s" and "taskQueue s = t # rest"
  shows "runNext ((settle p v (terminate w (finish_race w s)))
           \<lparr>currWorker := currWorker s - 1\<rparr>)
         = (settle p v (terminate w (finish_race w s)))
             \<lparr>taskQueue := rest, currWorker := currWorker s,
              workers := workers (terminate w (finish_race w s)) @ [spawn t]\<rparr>"
  using assms by (simp add: runNext_def)

section \<open>Descriptors in submission order, and no idle slot\<close>

lemma admitted_task_spawn [simp]: "admitted_task (spawn t) = t"
  by (simp add: admitted_task_def spawn_def)

lemma tasks_runNext:
  "map admitted_task (workers (runNext s)) @ taskQueue (runNext s)
   = map admitted_task (workers s) @ taskQueue s"
  by (simp add: runNext_def split: list.splits)

lemma tasks_closed [simp]:
  "map admitted_task (workers (finish_race w s)) = map admitted_task (workers s)"
  "map admitted_task (workers (terminate w s)) = map admitted_task (workers s)"
  by (simp_all add: finish_race_def terminate_def map_update_same admitted_task_def)

lemma tasks_race_then:
  "map admitted_task (workers (race_then w r (finish_race w s))) @ taskQueue (race_then w r (finish_race w s))
   = map admitted_task (workers s) @ taskQueue s"
  unfolding race_then_def Let_def by (simp add: tasks_runNext)

lemma tasks_race_catch:
  "map admitted_task (workers (race_catch X w err (finish_race w s))) @
     taskQueue (race_catch X w err (finish_race w s))
   = map admitted_task (workers s) @ taskQueue s"
proof (cases err)
  case (ErrorRequestTimeout msg)
  then show ?thesis by (simp add: race_catch_def Let_def tasks_runNext)
next
  case (ErrorWorkerExit msg)
  then show ?thesis by (simp add: race_catch_def Let_def)
next
  case (WorkerError e)
  then show ?thesis by (simp add: race_catch_def Let_def tasks_runNext)
qed

lemma tasks_step:
  "map admitted_task (workers (step X ev s)) @ taskQueue (step X ev s) @ submitted X evs (step X ev s)
   = map admitted_task (workers s) @ taskQueue s @ submitted X (ev # evs) s"
proof (cases ev)
  case (AddTask h r n)
  have "map admitted_task (workers (addTask h r n s)) @ taskQueue (addTask h r n s)
        = map admitted_task (workers s) @ taskQueue s @
          [\<lparr>t_workerData =
              \<lparr>wd_queueId = createQueueId s n, wd_useLogger = useLogger s,
               wd_isApiResource = isApiRoute r, wd_handlerPath = PathJoin handlerDir h,
               wd_request = SerializeHttpReq r\<rparr>,
            t_promise = length (promises s)\<rparr>]"
    unfolding addTask_def Let_def by (simp add: tasks_runNext)
  then show ?thesis using AddTask by simp
next
  case (Message w r)
  then show ?thesis using tasks_race_then [of w r s] by simp
next
  case (WorkerErr w e)
  then show ?thesis using tasks_race_catch [of X w "WorkerError e" s] by simp
next
  case (Exit w c)
  then show ?thesis
    using tasks_race_catch [of X w "ErrorWorkerExit (''worker stopped with exit code '' @ number_string c)" s]
    by simp
next
  case (TimerFired w)
  then show ?thesis using tasks_race_catch [of X w "ErrorRequestTimeout ''request timeout''" s] by simp
qed

lemma tasks_run:
  "map admitted_task (workers (run X evs s)) @ taskQueue (run X evs s)
   = map admitted_task (workers s) @ taskQueue s @ submitted X evs s"
proof (induction evs arbitrary: s)
  case Nil
  then show ?case by simp
next
  case (Cons ev evs)
  have "map admitted_task (workers (run X (ev # evs) s)) @ taskQueue (run X (ev # evs) s)
        = map admitted_task (workers (step X ev s)) @ taskQueue (step X ev s) @
          submitted X evs (step X ev s)"
    using Cons.IH [of "step X ev s"] by simp
  then show ?case by (simp only: tasks_step)
qed

lemma gate_after_push:
  assumes "taskQueue s = [] \<or> maxWorkers s \<le> currWorker s"
  shows "taskQueue (runNext (s\<lparr>promises := ps, taskQueue := taskQueue s @ [t]\<rparr>)) = [] \<or>
         maxWorkers (runNext (s\<lparr>promises := ps, taskQueue := taskQueue s @ [t]\<rparr>))
           \<le> currWorker (runNext (s\<lparr>promises := ps, taskQueue := taskQueue s @ [t]\<rparr>))"
  using assms by (auto simp: runNext_def split: list.splits)

lemma gate_after_release:
  assumes "taskQueue s = [] \<or> maxWorkers s \<le> currWorker s + 1"
  shows "taskQueue (runNext s) = [] \<or> maxWorkers (runNext s) \<le> currWorker (runNext s)"
  using assms by (auto simp: runNext_def split: list.splits)

lemma gate_step:
  assumes "taskQueue s = [] \<or> maxWorkers s \<le> currWorker s"
  shows "taskQueue (step X ev s) = [] \<or> maxWorkers (step X ev s) \<le> currWorker (step X ev s)"
proof (cases ev)
  case (AddTask h r n)
  then show ?thesis using gate_after_push [OF assms] by (simp add: addTask_def Let_def)
next
  case (Message w r)
  show ?thesis
  proof (cases "racing w s")
    case True
    have "taskQueue (race_then w r (finish_race w s)) = [] \<or>
          maxWorkers (race_then w r (finish_race w s)) \<le> currWorker (race_then w r (finish_race w s))"
      unfolding race_then_def Let_def
      by (rule gate_after_release) (use assms in simp)
    with True Message show ?thesis by simp
  next
    case False
    with Message assms show ?thesis by simp
  qed
next
  case (WorkerErr w e)
  show ?thesis
  proof (cases "racing w s")
    case True
    have "taskQueue (race_catch X w (WorkerError e) (finish_race w s)) = [] \<or>
          maxWorkers (race_catch X w (WorkerError e) (finish_race w s))
            \<le> currWorker (race_catch X w (WorkerError e) (finish_race w s))"
      unfolding race_catch_def Let_def error.case
      by (rule gate_after_release) (use assms in simp)
    with True WorkerErr show ?thesis by simp
  next
    case False
    with WorkerErr assms show ?thesis by simp
  qed
next
  case (Exit w c)
  then show ?thesis using assms by (simp add: race_catch_def)
next
  case (TimerFired w)
  show ?thesis
  proof (cases "racing w s")
    case True
    have "taskQueue (race_catch X w (ErrorRequestTimeout ''request timeout'') (finish_race w s)) = [] \<or>
          maxWorkers (race_catch X w (ErrorRequestTimeout ''request timeout'') (finish_race w s))
            \<le> currWorker (race_catch X w (ErrorRequestTimeout ''request timeout'') (finish_race w s))"
    proof (cases "wd_isApiResource (w_data (workers (finish_race w s) ! w))")
      case True
      show ?thesis
        unfolding race_catch_def Let_def error.case
        by (rule gate_after_release) (use assms True in simp)
    next
      case False
      show ?thesis
        unfolding race_catch_def Let_def error.case
        by (rule gate_after_release) (use assms False in simp)
    qed
    with True TimerFired show ?thesis by simp
  next
    case False
    with TimerFired assms show ?thesis by simp
  qed
qed

lemma gate_run:
  "taskQueue s = [] \<or> maxWorkers s \<le> currWorker s \<Longrightarrow>
   taskQueue (run X evs s) = [] \<or> maxWorkers (run X evs s) \<le> currWorker (run X evs s)"
proof (induction evs arbitrary: s)
  case Nil
  then show ?case by simp
next
  case (Cons ev evs)
  from gate_step [OF Cons.prems] have
    "taskQueue (step X ev s) = [] \<or> maxWorkers (step X ev s) \<le> currWorker (step X ev s)" .
  from Cons.IH [OF this] show ?case by simp
qed

section \<open>Decimal strings\<close>

lemma digit_char_inj: "a < 10 \<Longrightarrow> b < 10 \<Longrightarrow> digit_char a = digit_char b \<Longrightarrow> a = b"
proof -
  assume "a < 10" "b < 10" "digit_char a = digit_char b"
  moreover have "distinct ''0123456789''" by simp
  ultimately show "a = b"
    unfolding digit_char_def by (simp add: nth_eq_iff_index_eq)
qed

lemma digit_char_mem: "a < 10 \<Longrightarrow> digit_char a \<in> set ''0123456789''"
  unfolding digit_char_def by (rule nth_mem) simp

lemma decimal_digits: "set (decimal n) \<subseteq> set ''0123456789''"
proof (induction n rule: decimal.induct)
  case (1 n)
  show ?case
  proof (cases "n < 10")
    case True
    then show ?thesis using digit_char_mem [of n] by (simp add: decimal.simps [of n])
  next
    case False
    then show ?thesis
      using 1 digit_char_mem [of "n mod 10"] by (simp add: decimal.simps [of n])
  qed
qed

lemma decimal_nonempty: "decimal n \<noteq> []"
  by (simp add: decimal.simps [of n])

lemma decimal_length: "length (decimal n) = 1 \<longleftrightarrow> n < 10"
  using decimal_nonempty [of "n div 10"] by (cases "decimal (n div 10)") (simp_all add: decimal.simps [of n])

lemma decimal_inj: "decimal a = decimal b \<Longrightarrow> a = b"
proof (induction a arbitrary: b rule: decimal.induct)
  case (1 n)
  show ?case
  proof (cases "n < 10")
    case True
    with 1(2) have "b < 10" using decimal_length [of b] decimal_length [of n] by simp
    with True 1(2) show ?thesis
      by (simp add: decimal.simps [of n] decimal.simps [of b] digit_char_inj)
  next
    case False
    with 1(2) have big: "\<not> b < 10" using decimal_length [of b] decimal_length [of n] by simp
    with False 1(2) have "decimal (n div 10) = decimal (b div 10)"
      and "digit_char (n mod 10) = digit_char (b mod 10)"
      by (simp_all add: decimal.simps [of n] decimal.simps [of b])
    then have "n div 10 = b div 10" and "n mod 10 = b mod 10"
      using 1(1) [OF False] by (simp_all add: digit_char_inj)
    then show ?thesis by (metis div_mult_mod_eq)
  qed
qed

lemma number_string_inj: "number_string a = number_string b \<Longrightarrow> a = b"
proof -
  assume eq: "number_string a = number_string b"
  have no_minus: "CHR ''-'' # xs \<noteq> decimal n" for n xs
  proof
    assume "CHR ''-'' # xs = decimal n"
    then have "CHR ''-'' \<in> set (decimal n)" by (metis list.set_intros(1))
    then show False using decimal_digits [of n] by auto
  qed
  show "a = b"
  proof (cases "a < 0")
    case True
    then have "b < 0" using eq no_minus [of "decimal (nat (- a))" "nat b"] by (auto simp: number_string_def split: if_splits)
    with True eq have "nat (- a) = nat (- b)" by (simp add: number_string_def decimal_inj)
    with True \<open>b < 0\<close> show ?thesis by simp
  next
    case False
    then have "\<not> b < 0" using eq no_minus [of "decimal (nat (- b))" "nat a"] by (auto simp: number_string_def split: if_splits)
    with False eq have "nat a = nat b" by (simp add: number_string_def decimal_inj)
    with False \<open>\<not> b < 0\<close> show ?thesis by simp
  qed
qed

lemma split_at_dot:
  "CHR ''.'' \<notin> set a \<Longrightarrow> CHR ''.'' \<notin> set c \<Longrightarrow> a @ CHR ''.'' # b = c @ CHR ''.'' # d \<Longrightarrow>
   a = c \<and> b = d"
proof (induction a arbitrary: c)
  case Nil
  then show ?case by (cases c) auto
next
  case (Cons x a)
  then show ?case by (cases c) auto
qed

section \<open>A concrete state\<close>

lemmas scheduler_defs =
  WorkerManager_def addTask_def runNext_def Let_def spawn_def racing_def finish_race_def
  race_catch_def race_then_def terminate_def settle_def createQueueId_def number_string_def
  decimal.simps digit_char_def handlerDir_def api_req_def web_req_def example_exceptions_def
  running_def

lemma busy_state:
  "busy =
     \<lparr>maxWorkers = 1, currWorker = 1,
      taskQueue =
        [\<lparr>t_workerData =
            \<lparr>wd_queueId = ''q0.1000'', wd_useLogger = False, wd_isApiResource = False,
             wd_handlerPath = PathJoin (PathResolve ''__dirname'' ''../../http/'') ''b'',
             wd_request = SerializeHttpReq \<lparr>isApiRoute = False, req_rest = ()\<rparr>\<rparr>,
          t_promise = 1\<rparr>],
      timeoutMs = 10000, useLogger = False, promises = [Pending, Pending],
      workers =
        [\<lparr>w_data =
            \<lparr>wd_queueId = ''q0.1000'', wd_useLogger = False, wd_isApiResource = True,
             wd_handlerPath = PathJoin (PathResolve ''__dirname'' ''../../http/'') ''a'',
             wd_request = SerializeHttpReq \<lparr>isApiRoute = True, req_rest = ()\<rparr>\<rparr>,
          w_promise = 0, w_racing = True, w_terminated = 0\<rparr>],
      uncaught = []\<rparr>"
  by (simp add: busy_def two_tasks_def scheduler_defs)

lemma busy_facts:
  "racing 0 busy"
  "w_promise (workers busy ! 0) = 0"
  "wd_isApiResource (w_data (workers busy ! 0))"
  "w_terminated (workers busy ! 0) = 0"
  "taskQueue busy \<noteq> []"
  "t_promise (hd (taskQueue busy)) = 1"
  "length (workers busy) = 1"
  "uncaught busy = []"
  "maxWorkers busy \<le> currWorker busy"
  by (simp_all add: busy_state racing_def)

lemma waiting_room_facts:
  "currWorker waiting_room < maxWorkers waiting_room"
  "taskQueue waiting_room = first_task # []"
  by (simp_all add: waiting_room_def WorkerManager_def)

lemma three_state:
  "map (wd_handlerPath \<circ> w_data)
     (workers (run example_exceptions three_then_reply (WorkerManager\<lparr>maxWorkers := 2, useLogger := False\<rparr>)))
   = [PathJoin handlerDir ''a'', PathJoin handlerDir ''b'', PathJoin handlerDir ''c'']"
  "map w_racing
     (workers (run example_exceptions three_then_reply (WorkerManager\<lparr>maxWorkers := 2, useLogger := False\<rparr>)))
   = [False, True, True]"
  "submissions three_then_reply = 3"
  by (simp_all add: three_then_reply_def WorkerManager_def addTask_def runNext_def Let_def spawn_def
      racing_def finish_race_def race_then_def settle_def submissions_def)

section \<open>The properties\<close>

text \<open>
  C1. Started with no slot taken and a limit \<open>m \<ge> 0\<close> (10 in the source), after any sequence
  of submissions, worker events and timer expiries the counter \<open>currWorker\<close> lies between 0
  and \<open>maxWorkers\<close>, the limit is still \<open>m\<close>, and the number of executions admitted and not
  yet completed is at most the limit.
\<close>

theorem currWorker_bounded:
  assumes "0 \<le> m"
  shows "0 \<le> currWorker (run X evs (WorkerManager\<lparr>maxWorkers := m, useLogger := u\<rparr>)) \<and>
         currWorker (run X evs (WorkerManager\<lparr>maxWorkers := m, useLogger := u\<rparr>))
           \<le> maxWorkers (run X evs (WorkerManager\<lparr>maxWorkers := m, useLogger := u\<rparr>)) \<and>
         maxWorkers (run X evs (WorkerManager\<lparr>maxWorkers := m, useLogger := u\<rparr>)) = m \<and>
         int (running (run X evs (WorkerManager\<lparr>maxWorkers := m, useLogger := u\<rparr>))) \<le> m"
proof -
  have "counted m (run X evs (WorkerManager\<lparr>maxWorkers := m, useLogger := u\<rparr>))"
    using assms by (intro counted_run counted_init)
  then show ?thesis by (simp add: counted_def)
qed

theorem currWorker_bounded_witness:
  "(0::int) \<le> 2 \<and>
   0 \<le> currWorker (run example_exceptions three_then_reply (WorkerManager\<lparr>maxWorkers := 2, useLogger := False\<rparr>)) \<and>
   currWorker (run example_exceptions three_then_reply (WorkerManager\<lparr>maxWorkers := 2, useLogger := False\<rparr>))
     \<le> maxWorkers (run example_exceptions three_then_reply (WorkerManager\<lparr>maxWorkers := 2, useLogger := False\<rparr>)) \<and>
   int (running (run example_exceptions three_then_reply (WorkerManager\<lparr>maxWorkers := 2, useLogger := False\<rparr>))) \<le> 2"
proof -
  have limit: "(0::int) \<le> 2" by simp
  from currWorker_bounded [OF limit, where X = example_exceptions and evs = three_then_reply and u = False]
  show ?thesis using limit by blast
qed

text \<open>
  C2. The claim fails on the code where a worker exits with a non-zero code while its race
  is open. With one slot, one running task and one queued task, the exit leaves
  \<open>currWorker\<close> at 1 although no race is open any more, and the queued task is not
  admitted: the \<open>throw\<close> leaves the handler before \<open>this.currWorker--\<close> and
  \<open>this.runNext()\<close>. A timeout in the same state releases the slot and admits the queued
  task.
\<close>

theorem abnormal_exit_keeps_slot:
  "currWorker (step example_exceptions (Exit 0 1) busy) = 1 \<and>
   running (step example_exceptions (Exit 0 1) busy) = 0 \<and>
   taskQueue (step example_exceptions (Exit 0 1) busy) = taskQueue busy \<and>
   length (taskQueue busy) = 1 \<and>
   length (workers (step example_exceptions (Exit 0 1) busy)) = 1 \<and>
   currWorker (step example_exceptions (TimerFired 0) busy) = 1 \<and>
   running (step example_exceptions (TimerFired 0) busy) = 1 \<and>
   taskQueue (step example_exceptions (TimerFired 0) busy) = []"
  by (simp add: busy_state racing_def finish_race_def race_catch_def terminate_def settle_def
      runNext_def spawn_def running_def example_exceptions_def Let_def)

text \<open>
  C3. In a state reached from the initial one by any sequence of events: the promises of
  the workers in spawn order followed by those of the queued entries are \<open>0, 1, \<dots>\<close> up to
  the number of submissions; the descriptors the workers were started with, in spawn order,
  followed by the queue are the descriptors of the submissions in submission order, so the
  worker started \<open>i\<close>-th carries the \<open>i\<close>-th submission and every entry is in exactly one
  place; and no entry waits while a slot is free. Whenever a slot is free and the queue is
  not empty, \<open>runNext\<close> removes the head of the queue, takes the slot and starts a worker
  with the head's descriptor and an open race.
\<close>

theorem admission_is_fifo:
  assumes "s = run X evs (WorkerManager\<lparr>maxWorkers := m, useLogger := u\<rparr>)"
  shows "map w_promise (workers s) @ map t_promise (taskQueue s) = [0..<submissions evs] \<and>
         map admitted_task (workers s) @ taskQueue s
           = submitted X evs (WorkerManager\<lparr>maxWorkers := m, useLogger := u\<rparr>) \<and>
         (taskQueue s = [] \<or> maxWorkers s \<le> currWorker s) \<and>
         (currWorker s' < maxWorkers s' \<and> taskQueue s' = t # rest \<longrightarrow>
            runNext s' =
              s'\<lparr>taskQueue := rest, currWorker := currWorker s' + 1,
                 workers := workers s' @
                   [\<lparr>w_data = t_workerData t, w_promise = t_promise t,
                     w_racing = True, w_terminated = 0\<rparr>]\<rparr>)"
proof -
  have "in_order s"
    unfolding assms by (intro in_order_run in_order_init)
  moreover have "length (promises s) = submissions evs"
    unfolding assms by (simp add: length_promises_run WorkerManager_def)
  ultimately have ids: "map w_promise (workers s) @ map t_promise (taskQueue s) = [0..<submissions evs]"
    by (simp add: in_order_def)
  have tasks: "map admitted_task (workers s) @ taskQueue s
           = submitted X evs (WorkerManager\<lparr>maxWorkers := m, useLogger := u\<rparr>)"
    unfolding assms using tasks_run [of X evs "WorkerManager\<lparr>maxWorkers := m, useLogger := u\<rparr>"]
    by (simp add: WorkerManager_def)
  have gate: "taskQueue s = [] \<or> maxWorkers s \<le> currWorker s"
    unfolding assms by (rule gate_run) (simp add: WorkerManager_def)
  have admit: "currWorker s' < maxWorkers s' \<and> taskQueue s' = t # rest \<longrightarrow>
            runNext s' =
              s'\<lparr>taskQueue := rest, currWorker := currWorker s' + 1,
                 workers := workers s' @
                   [\<lparr>w_data = t_workerData t, w_promise = t_promise t,
                     w_racing = True, w_terminated = 0\<rparr>]\<rparr>"
    by (simp add: runNext_def spawn_def)
  from ids tasks gate admit show ?thesis by blast
qed

theorem admission_is_fifo_witness:
  "currWorker waiting_room < maxWorkers waiting_room \<and> taskQueue waiting_room = first_task # [] \<and>
   w_data (last (workers (runNext waiting_room))) = t_workerData first_task \<and>
   w_racing (last (workers (runNext waiting_room))) \<and>
   taskQueue (runNext waiting_room) = [] \<and>
   map admitted_task
     (workers (run example_exceptions three_then_reply (WorkerManager\<lparr>maxWorkers := 2, useLogger := False\<rparr>))) @
   taskQueue (run example_exceptions three_then_reply (WorkerManager\<lparr>maxWorkers := 2, useLogger := False\<rparr>))
     = submitted example_exceptions three_then_reply (WorkerManager\<lparr>maxWorkers := 2, useLogger := False\<rparr>) \<and>
   map (wd_handlerPath \<circ> w_data)
     (workers (run example_exceptions three_then_reply (WorkerManager\<lparr>maxWorkers := 2, useLogger := False\<rparr>)))
     = [PathJoin handlerDir ''a'', PathJoin handlerDir ''b'', PathJoin handlerDir ''c'']"
proof -
  have inst:
    "map admitted_task
       (workers (run example_exceptions three_then_reply (WorkerManager\<lparr>maxWorkers := 2, useLogger := False\<rparr>))) @
     taskQueue (run example_exceptions three_then_reply (WorkerManager\<lparr>maxWorkers := 2, useLogger := False\<rparr>))
       = submitted example_exceptions three_then_reply (WorkerManager\<lparr>maxWorkers := 2, useLogger := False\<rparr>)"
    and admit: "runNext waiting_room =
       waiting_room\<lparr>taskQueue := [], currWorker := currWorker waiting_room + 1,
         workers := workers waiting_room @
           [\<lparr>w_data = t_workerData first_task, w_promise = t_promise first_task,
             w_racing = True, w_terminated = 0\<rparr>]\<rparr>"
    using admission_is_fifo [OF refl, where X = example_exceptions and evs = three_then_reply
        and m = 2 and u = False and s' = waiting_room and t = first_task and rest = "[]"]
      waiting_room_facts
    by blast+
  show ?thesis
    using inst waiting_room_facts three_state(1) by (simp add: admit)
qed

text \<open>
  C4. In a state reached from the initial one, when the timer of an open race fires, the
  worker is terminated and the caller's promise is fulfilled, not rejected: with
  \<open>toHttpApiResponse()\<close> of the timeout error when the task's \<open>isApiResource\<close> is set and
  with \<open>toHttpResponse()\<close> otherwise. Nothing is thrown.
\<close>

theorem timeout_resolves_caller:
  assumes "s = run X evs (WorkerManager\<lparr>maxWorkers := m, useLogger := u\<rparr>)" and "racing w s"
  shows "promises (step X (TimerFired w) s) ! w_promise (workers s ! w) =
           Fulfilled (if wd_isApiResource (w_data (workers s ! w))
                      then toHttpApiResponse X ''request timeout''
                      else toHttpResponse X ''request timeout'') \<and>
         w_terminated (workers (step X (TimerFired w) s) ! w) = Suc (w_terminated (workers s ! w)) \<and>
         uncaught (step X (TimerFired w) s) = uncaught s"
proof -
  have io: "in_order s" and ow: "owed s"
    using assms(1) reachable_in_order reachable_owed by simp_all
  have w: "w < length (workers s)" using assms(2) by (simp add: racing_def)
  show ?thesis
    using race_catch_timeout_promise [OF io ow assms(2)] race_catch_terminated [OF w] assms(2)
    by (simp add: race_catch_uncaught)
qed

theorem timeout_resolves_caller_witness:
  "racing 0 busy \<and>
   promises (step example_exceptions (TimerFired 0) busy) ! 0 =
     Fulfilled \<lparr>isApiResource = True, httpCode = 408, data = ''request timeout''\<rparr> \<and>
   w_terminated (workers (step example_exceptions (TimerFired 0) busy) ! 0) = 1"
  using timeout_resolves_caller [OF busy_def busy_facts(1)] busy_facts
  by (simp add: example_exceptions_def)

text \<open>
  C5. In a state reached from the initial one, when a worker exits with a non-zero code
  while its race is open, the \<open>ErrorWorkerExit\<close> is thrown out of the handler, no promise is
  touched, and the caller's promise is still pending after any later events.
\<close>

theorem abnormal_exit_escapes:
  assumes "s = run X evs (WorkerManager\<lparr>maxWorkers := m, useLogger := u\<rparr>)" and "racing w s" and "c \<noteq> 0"
  shows "uncaught (step X (Exit w c) s) =
           uncaught s @ [ErrorWorkerExit (''worker stopped with exit code '' @ number_string c)] \<and>
         promises (step X (Exit w c) s) = promises s \<and>
         promises (run X later (step X (Exit w c) s)) ! w_promise (workers s ! w) = Pending"
proof -
  have io: "in_order s" and ow: "owed s"
    using assms(1) reachable_in_order reachable_owed by simp_all
  have "abandoned (w_promise (workers s ! w)) (step X (Exit w c) s)"
    using exit_abandons [OF io ow assms(2)] assms(2,3) by simp
  then have "abandoned (w_promise (workers s ! w)) (run X later (step X (Exit w c) s))"
    by (rule abandoned_run)
  then have "promises (run X later (step X (Exit w c) s)) ! w_promise (workers s ! w) = Pending"
    by (simp add: abandoned_def)
  then show ?thesis using assms(2,3) by (simp add: race_catch_uncaught)
qed

theorem abnormal_exit_escapes_witness:
  "racing 0 busy \<and> (1::int) \<noteq> 0 \<and>
   uncaught (step example_exceptions (Exit 0 1) busy) =
     [ErrorWorkerExit ''worker stopped with exit code 1''] \<and>
   promises (run example_exceptions [TimerFired 0, Message 0 ok_reply]
              (step example_exceptions (Exit 0 1) busy)) ! 0 = Pending"
proof -
  have code: "(1::int) \<noteq> 0" by simp
  have msg: "number_string 1 = ''1''"
    by (simp add: number_string_def decimal.simps digit_char_def)
  show ?thesis
    using abnormal_exit_escapes [OF busy_def busy_facts(1) code,
        of "[TimerFired 0, Message 0 ok_reply]"] busy_facts msg
    by simp
qed

text \<open>
  C6. In a state reached from the initial one (limit \<open>m \<ge> 0\<close>), when a worker emits an
  error while its race is open, the caller's promise is rejected with that error, nothing
  is thrown, and if the queue is not empty its head is admitted: it leaves the queue and a
  worker is spawned for it.
\<close>

theorem application_error_rejects:
  assumes "s = run X evs (WorkerManager\<lparr>maxWorkers := m, useLogger := u\<rparr>)" and "0 \<le> m" and "racing w s"
  shows "promises (step X (WorkerErr w e) s) ! w_promise (workers s ! w) = Rejected (WorkerError e) \<and>
         uncaught (step X (WorkerErr w e) s) = uncaught s \<and>
         (taskQueue s \<noteq> [] \<longrightarrow>
            taskQueue (step X (WorkerErr w e) s) = tl (taskQueue s) \<and>
            length (workers (step X (WorkerErr w e) s)) = Suc (length (workers s)) \<and>
            last (workers (step X (WorkerErr w e) s)) = spawn (hd (taskQueue s)))"
proof -
  have io: "in_order s" and ow: "owed s"
    using assms(1) reachable_in_order reachable_owed by simp_all
  have "counted m s"
    using assms(1,2) by (simp add: counted_run counted_init)
  then have cap: "currWorker s \<le> maxWorkers s" by (simp add: counted_def)
  have w: "w < length (workers s)" using assms(3) by (simp add: racing_def)
  have admit: "taskQueue (step X (WorkerErr w e) s) = tl (taskQueue s) \<and>
            length (workers (step X (WorkerErr w e) s)) = Suc (length (workers s)) \<and>
            last (workers (step X (WorkerErr w e) s)) = spawn (hd (taskQueue s))"
    if "taskQueue s \<noteq> []"
  proof -
    from that obtain t rest where q: "taskQueue s = t # rest" by (cases "taskQueue s") auto
    show ?thesis
      using assms(3) w q by (simp add: race_catch_def Let_def release_admits [OF cap q])
  qed
  show ?thesis
    using race_catch_error_promise [OF io ow assms(3)] assms(3) admit
    by (simp add: race_catch_uncaught)
qed

theorem application_error_rejects_witness:
  "(0::int) \<le> 1 \<and> racing 0 busy \<and> taskQueue busy \<noteq> [] \<and>
   promises (step example_exceptions (WorkerErr 0 ''boom'') busy) ! 0 = Rejected (WorkerError ''boom'') \<and>
   uncaught (step example_exceptions (WorkerErr 0 ''boom'') busy) = [] \<and>
   taskQueue (step example_exceptions (WorkerErr 0 ''boom'') busy) = tl (taskQueue busy) \<and>
   length (workers (step example_exceptions (WorkerErr 0 ''boom'') busy)) = 2 \<and>
   w_promise (last (workers (step example_exceptions (WorkerErr 0 ''boom'') busy))) = 1"
proof -
  have limit: "(0::int) \<le> 1" by simp
  show ?thesis
    using application_error_rejects [OF busy_def limit busy_facts(1), of "''boom''"] busy_facts
    by (simp add: spawn_def)
qed

text \<open>
  C7. \<open>runNext\<close> returns the state unchanged when \<open>currWorker \<ge> maxWorkers\<close> or the queue is
  empty. With \<open>maxWorkers = 0\<close>, after any sequence of events no worker has been spawned,
  every submission is still queued in order, and every promise is pending.
\<close>

theorem runNext_gate:
  "(maxWorkers s \<le> currWorker s \<or> taskQueue s = [] \<longrightarrow> runNext s = s) \<and>
   workers (run X evs (WorkerManager\<lparr>maxWorkers := 0, useLogger := u\<rparr>)) = [] \<and>
   map t_promise (taskQueue (run X evs (WorkerManager\<lparr>maxWorkers := 0, useLogger := u\<rparr>))) = [0..<submissions evs] \<and>
   promises (run X evs (WorkerManager\<lparr>maxWorkers := 0, useLogger := u\<rparr>)) = replicate (submissions evs) Pending"
proof -
  let ?s = "run X evs (WorkerManager\<lparr>maxWorkers := 0, useLogger := u\<rparr>)"
  have st: "workers ?s = []" "promises ?s = replicate (submissions evs) Pending"
    using starved_run [of "WorkerManager\<lparr>maxWorkers := 0, useLogger := u\<rparr>" X evs]
    by (simp_all add: WorkerManager_def)
  have "in_order ?s" by (rule reachable_in_order)
  with st have "map t_promise (taskQueue ?s) = [0..<submissions evs]"
    by (simp add: in_order_def)
  with st show ?thesis by (simp add: runNext_closed_gate)
qed

theorem runNext_gate_witness:
  "(maxWorkers busy \<le> currWorker busy \<or> taskQueue busy = []) \<and> runNext busy = busy \<and>
   taskQueue busy \<noteq> [] \<and>
   workers (run example_exceptions two_tasks (WorkerManager\<lparr>maxWorkers := 0, useLogger := False\<rparr>)) = [] \<and>
   promises (run example_exceptions two_tasks (WorkerManager\<lparr>maxWorkers := 0, useLogger := False\<rparr>)) = [Pending, Pending]"
proof -
  have n: "submissions two_tasks = 2"
    by (simp add: submissions_def two_tasks_def)
  show ?thesis
    using runNext_gate [where s = busy and X = example_exceptions and evs = two_tasks and u = False] busy_facts n
    by (simp add: numeral_2_eq_2)
qed

text \<open>
  C8. A promise fulfilled with \<open>{ isApiResource, httpCode, data }\<close> makes \<open>handleRequest\<close>
  answer with \<open>res.status(httpCode).json(data)\<close> if \<open>isApiResource\<close> is set and with
  \<open>res.status(httpCode).send(data)\<close> otherwise. In a state reached from the initial one,
  the message a worker posts while its race is open reaches the caller in this way.
\<close>

theorem reply_follows_isApiResource:
  fixes s :: "('q, 'd, 'e) manager"
  assumes "s = run X evs (WorkerManager\<lparr>maxWorkers := m, useLogger := u\<rparr>)" and "racing w s"
  shows "handleRequest (Fulfilled r :: ('d, 'e) promise) =
           Some (if isApiResource r then StatusJson (httpCode r) (data r)
                 else StatusSend (httpCode r) (data r)) \<and>
         handleRequest (promises (step X (Message w r) s) ! w_promise (workers s ! w)) =
           Some (if isApiResource r then StatusJson (httpCode r) (data r)
                 else StatusSend (httpCode r) (data r))"
proof -
  have io: "in_order s" and ow: "owed s"
    using assms(1) reachable_in_order reachable_owed by simp_all
  show ?thesis
    using race_then_promise [OF io ow assms(2)] assms(2) by (simp add: on_fulfilled_def)
qed

theorem reply_follows_isApiResource_witness:
  "racing 0 busy \<and>
   handleRequest (Fulfilled ok_reply :: (string, string) promise) = Some (StatusJson 200 ''ok'') \<and>
   handleRequest (promises (step example_exceptions (Message 0 ok_reply) busy) ! 0)
     = Some (StatusJson 200 ''ok'')"
  using reply_follows_isApiResource [OF busy_def busy_facts(1), of ok_reply] busy_facts
  by (simp add: ok_reply_def)

text \<open>
  C9, as stated, fails: two submissions made in the same millisecond while a slot is free
  both find the queue empty and receive the same id.
\<close>

theorem queue_ids_collide:
  "map (wd_queueId \<circ> w_data) (workers (run example_exceptions two_tasks WorkerManager))
     = [''q0.1000'', ''q0.1000''] \<and>
   map w_promise (workers (run example_exceptions two_tasks WorkerManager)) = [0, 1] \<and>
   taskQueue (run example_exceptions two_tasks WorkerManager) = []"
  by (simp add: two_tasks_def scheduler_defs)

text \<open>
  C9, amended. The id is \<open>q\<close>, the queue length at submission, a dot and the timestamp;
  two ids are equal exactly when both the queue lengths and the timestamps are.
\<close>

theorem createQueueId_eq:
  "createQueueId s t = createQueueId s' t' \<longleftrightarrow>
   length (taskQueue s) = length (taskQueue s') \<and> t = t'"
proof
  assume eq: "createQueueId s t = createQueueId s' t'"
  have nodot: "CHR ''.'' \<notin> set (decimal n)" for n
    using decimal_digits [of n] by auto
  from eq have "decimal (length (taskQueue s)) @ CHR ''.'' # number_string t
     = decimal (length (taskQueue s')) @ CHR ''.'' # number_string t'"
    by (simp add: createQueueId_def)
  then have "decimal (length (taskQueue s)) = decimal (length (taskQueue s'))"
    and "number_string t = number_string t'"
    using split_at_dot [OF nodot nodot] by blast+
  then show "length (taskQueue s) = length (taskQueue s') \<and> t = t'"
    by (simp add: decimal_inj number_string_inj)
next
  assume "length (taskQueue s) = length (taskQueue s') \<and> t = t'"
  then show "createQueueId s t = createQueueId s' t'"
    by (simp add: createQueueId_def)
qed

text \<open>
  C10. When the race of a worker is open and it rejects, by timeout, by an error of the
  worker or by a non-zero exit code, \<open>terminate\<close> is called on the worker once; when the
  worker's message settles the race, \<open>terminate\<close> is not called.
\<close>

theorem catch_terminates_worker:
  assumes "racing w s"
  shows "w_terminated (workers (step X (TimerFired w) s) ! w) = Suc (w_terminated (workers s ! w)) \<and>
         w_terminated (workers (step X (WorkerErr w e) s) ! w) = Suc (w_terminated (workers s ! w)) \<and>
         (c \<noteq> 0 \<longrightarrow>
            w_terminated (workers (step X (Exit w c) s) ! w) = Suc (w_terminated (workers s ! w))) \<and>
         w_terminated (workers (step X (Message w r) s) ! w) = w_terminated (workers s ! w)"
proof -
  have w: "w < length (workers s)" using assms by (simp add: racing_def)
  show ?thesis
    using assms by (simp add: race_catch_terminated [OF w] race_then_not_terminated [OF w])
qed

theorem catch_terminates_worker_witness:
  "racing 0 busy \<and> (1::int) \<noteq> 0 \<and>
   w_terminated (workers (step example_exceptions (TimerFired 0) busy) ! 0) = 1 \<and>
   w_terminated (workers (step example_exceptions (WorkerErr 0 ''boom'') busy) ! 0) = 1 \<and>
   w_terminated (workers (step example_exceptions (Exit 0 1) busy) ! 0) = 1 \<and>
   w_terminated (workers (step example_exceptions (Message 0 ok_reply) busy) ! 0) = 0"
  using catch_terminates_worker [OF busy_facts(1), of example_exceptions "''boom''" 1 ok_reply]
    busy_facts
  by simp

end
